theory Spec2Isabelle
  imports Main
begin

section \<open>The free store, queue objects and errors\<close>

text \<open>
  The development embeds \<^verbatim>\<open>Queue.h\<close>: a singly linked FIFO queue of heap nodes, its
  iterators and the two free functions \<^verbatim>\<open>filter\<close> and \<^verbatim>\<open>transform\<close>.

  Pointers are addresses; \<open>None\<close> is \<^verbatim>\<open>nullptr\<close>. A \<^verbatim>\<open>Node\<close> holds its data and the
  pointer to the next node (the field \<^verbatim>\<open>next\<close> is called \<open>nxt\<close> here). A \<^verbatim>\<open>Queue\<close> object
  holds \<^verbatim>\<open>m_front\<close>, \<^verbatim>\<open>m_rear\<close> and \<^verbatim>\<open>m_size\<close>. The element type \<open>'a\<close> is the
  template parameter \<^verbatim>\<open>T\<close>; its values are copied without failure.

  \<^verbatim>\<open>m_size\<close> is a C++ \<^verbatim>\<open>int\<close>. Signed overflow is undefined in C++, so the field is a
  mathematical integer here. Lemma \<open>m_size_in_int_range\<close> below shows that in a store of
  fewer than \<open>2^31\<close> nodes the field stays in the range of \<^verbatim>\<open>int\<close> in every reachable
  state, so that no increment or decrement of the source overflows there.
\<close>

type_synonym addr = nat

record 'a Node =
  data :: 'a
  nxt :: "addr option"

record Queue =
  m_front :: "addr option"
  m_rear :: "addr option"
  m_size :: int

text \<open>
  The program state: the free store of nodes (\<open>nodes\<close>, with room for \<open>capacity\<close> nodes
  at the addresses below \<open>capacity\<close>), and the \<^verbatim>\<open>Queue\<close> objects by their address
  (\<open>queues\<close>); \<open>sp\<close> is the address at which the next \<^verbatim>\<open>Queue\<close> object is placed.
\<close>

record 'a state =
  nodes :: "addr \<Rightarrow> 'a Node option"
  capacity :: nat
  queues :: "addr \<Rightarrow> Queue option"
  sp :: addr

text \<open>
  The three exceptions of the source, and \<open>Undefined\<close> for what C++ leaves undefined:
  reading through a null or dangling pointer, or using an object that does not exist.
\<close>

datatype error = EmptyQueue | InvalidOperation | bad_alloc | Undefined

text \<open>
  \<^verbatim>\<open>new Node(val)\<close>: the first free address of the store, or \<^verbatim>\<open>std::bad_alloc\<close> when
  the store is full. The constructor of \<^verbatim>\<open>Node\<close> sets \<^verbatim>\<open>next\<close> to \<^verbatim>\<open>nullptr\<close>.
\<close>

definition new_Node :: "'a \<Rightarrow> 'a state \<Rightarrow> (error + addr) \<times> 'a state" where
  "new_Node val s =
     (case find (\<lambda>a. nodes s a = None) [0..<capacity s] of
        None \<Rightarrow> (Inl bad_alloc, s)
      | Some a \<Rightarrow> (Inr a, s\<lparr>nodes := (nodes s)(a \<mapsto> \<lparr>data = val, nxt = None\<rparr>)\<rparr>))"

text \<open>\<^verbatim>\<open>delete temp\<close>, for a pointer to a live node.\<close>

definition delete_Node :: "addr \<Rightarrow> 'a state \<Rightarrow> 'a state" where
  "delete_Node temp s = s\<lparr>nodes := (nodes s)(temp := None)\<rparr>"

text \<open>Storage for a new \<^verbatim>\<open>Queue\<close> object (a local variable or a return value), and its release.\<close>

definition enter :: "'a state \<Rightarrow> addr \<times> 'a state" where
  "enter s = (sp s, s\<lparr>sp := Suc (sp s)\<rparr>)"

definition leave :: "addr \<Rightarrow> 'a state \<Rightarrow> 'a state" where
  "leave this s = s\<lparr>queues := (queues s)(this := None), sp := (if Suc this = sp s then this else sp s)\<rparr>"

section \<open>Queue operations\<close>

text \<open>\<^verbatim>\<open>Queue<T>::Queue()\<close>.\<close>

definition Queue_default :: "addr \<Rightarrow> 'a state \<Rightarrow> 'a state" where
  "Queue_default this s =
     s\<lparr>queues := (queues s)(this \<mapsto> \<lparr>m_front = None, m_rear = None, m_size = 0\<rparr>)\<rparr>"

text \<open>\<^verbatim>\<open>Queue<T>::pushBack\<close>: the node is allocated first, then linked behind \<^verbatim>\<open>m_rear\<close>.\<close>

definition pushBack :: "addr \<Rightarrow> 'a \<Rightarrow> 'a state \<Rightarrow> (error + unit) \<times> 'a state" where
  "pushBack this val s =
     (case queues s this of
        None \<Rightarrow> (Inl Undefined, s)
      | Some q \<Rightarrow>
         (case new_Node val s of
            (Inl e, s') \<Rightarrow> (Inl e, s')
          | (Inr temp, s') \<Rightarrow>
             if m_size q = 0 then
               (Inr (), s'\<lparr>queues := (queues s')(this \<mapsto>
                   q\<lparr>m_front := Some temp, m_rear := Some temp, m_size := m_size q + 1\<rparr>)\<rparr>)
             else
               (case m_rear q of
                  None \<Rightarrow> (Inl Undefined, s')
                | Some r \<Rightarrow>
                   (case nodes s' r of
                      None \<Rightarrow> (Inl Undefined, s')
                    | Some n \<Rightarrow>
                       (Inr (), s'\<lparr>nodes := (nodes s')(r \<mapsto> n\<lparr>nxt := Some temp\<rparr>),
                                   queues := (queues s')(this \<mapsto>
                                     q\<lparr>m_rear := Some temp, m_size := m_size q + 1\<rparr>)\<rparr>)))))"

text \<open>
  \<^verbatim>\<open>Queue<T>::front\<close>, both overloads (their bodies are the same): the value read through
  the returned reference.
\<close>

definition front :: "addr \<Rightarrow> 'a state \<Rightarrow> error + 'a" where
  "front this s =
     (case queues s this of
        None \<Rightarrow> Inl Undefined
      | Some q \<Rightarrow>
         if m_size q = 0 then Inl EmptyQueue
         else (case m_front q of
                 None \<Rightarrow> Inl Undefined
               | Some f \<Rightarrow> (case nodes s f of None \<Rightarrow> Inl Undefined | Some n \<Rightarrow> Inr (data n))))"

definition front_const :: "addr \<Rightarrow> 'a state \<Rightarrow> error + 'a" where
  "front_const this s =
     (case queues s this of
        None \<Rightarrow> Inl Undefined
      | Some q \<Rightarrow>
         if m_size q = 0 then Inl EmptyQueue
         else (case m_front q of
                 None \<Rightarrow> Inl Undefined
               | Some f \<Rightarrow> (case nodes s f of None \<Rightarrow> Inl Undefined | Some n \<Rightarrow> Inr (data n))))"

text \<open>\<^verbatim>\<open>Queue<T>::popFront\<close>. It moves \<^verbatim>\<open>m_front\<close> on and leaves \<^verbatim>\<open>m_rear\<close> as it is.\<close>

definition popFront :: "addr \<Rightarrow> 'a state \<Rightarrow> (error + unit) \<times> 'a state" where
  "popFront this s =
     (case queues s this of
        None \<Rightarrow> (Inl Undefined, s)
      | Some q \<Rightarrow>
         if m_size q = 0 then (Inl EmptyQueue, s)
         else (case m_front q of
                 None \<Rightarrow> (Inl Undefined, s)
               | Some temp \<Rightarrow>
                  (case nodes s temp of
                     None \<Rightarrow> (Inl Undefined, s)
                   | Some n \<Rightarrow>
                      (Inr (), (delete_Node temp s)\<lparr>queues := (queues s)(this \<mapsto>
                          q\<lparr>m_front := nxt n, m_size := m_size q - 1\<rparr>)\<rparr>))))"

text \<open>\<^verbatim>\<open>Queue<T>::size\<close>.\<close>

definition Queue_size :: "addr \<Rightarrow> 'a state \<Rightarrow> error + int" where
  "Queue_size this s = (case queues s this of None \<Rightarrow> Inl Undefined | Some q \<Rightarrow> Inr (m_size q))"

section \<open>Iterators\<close>

text \<open>
  \<^verbatim>\<open>RawIterator\<close>: the queue it came from and the current node. \<^verbatim>\<open>Iterator\<close> and
  \<^verbatim>\<open>ConstIterator\<close> are the two instances of the one template and share this record.
\<close>

record Iterator =
  m_ptr :: addr
  m_currentNode :: "addr option"

definition Queue_begin :: "addr \<Rightarrow> 'a state \<Rightarrow> error + Iterator" where
  "Queue_begin this s =
     (case queues s this of
        None \<Rightarrow> Inl Undefined
      | Some q \<Rightarrow> Inr \<lparr>m_ptr = this, m_currentNode = m_front q\<rparr>)"

definition Queue_end :: "addr \<Rightarrow> Iterator" where
  "Queue_end this = \<lparr>m_ptr = this, m_currentNode = None\<rparr>"

text \<open>The conversion operator from \<^verbatim>\<open>Iterator\<close> to \<^verbatim>\<open>ConstIterator\<close>.\<close>

definition to_const :: "Iterator \<Rightarrow> Iterator" where
  "to_const it = \<lparr>m_ptr = m_ptr it, m_currentNode = m_currentNode it\<rparr>"

text \<open>\<^verbatim>\<open>operator*\<close>: the value read through the returned reference.\<close>

definition deref :: "Iterator \<Rightarrow> 'a state \<Rightarrow> error + 'a" where
  "deref it s =
     (case m_currentNode it of
        None \<Rightarrow> Inl InvalidOperation
      | Some c \<Rightarrow> (case nodes s c of None \<Rightarrow> Inl Undefined | Some n \<Rightarrow> Inr (data n)))"

text \<open>Prefix \<^verbatim>\<open>operator++\<close>: the iterator after the step.\<close>

definition pre_incr :: "Iterator \<Rightarrow> 'a state \<Rightarrow> error + Iterator" where
  "pre_incr it s =
     (case m_currentNode it of
        None \<Rightarrow> Inl InvalidOperation
      | Some c \<Rightarrow>
         (case nodes s c of
            None \<Rightarrow> Inl Undefined
          | Some n \<Rightarrow> Inr (it\<lparr>m_currentNode := nxt n\<rparr>)))"

text \<open>Postfix \<^verbatim>\<open>operator++\<close>: the returned copy of the old iterator, and the iterator after the step.\<close>

definition post_incr :: "Iterator \<Rightarrow> 'a state \<Rightarrow> error + Iterator \<times> Iterator" where
  "post_incr it s =
     (case m_currentNode it of
        None \<Rightarrow> Inl InvalidOperation
      | Some c \<Rightarrow>
         (case nodes s c of
            None \<Rightarrow> Inl Undefined
          | Some n \<Rightarrow> (let result = it in Inr (result, it\<lparr>m_currentNode := nxt n\<rparr>))))"

text \<open>\<^verbatim>\<open>operator!=\<close>, the only comparison the source defines.\<close>

definition neq :: "Iterator \<Rightarrow> Iterator \<Rightarrow> bool" where
  "neq it other = (\<not> (m_currentNode it = m_currentNode other))"

section \<open>Destructor, copy constructor and assignment\<close>

text \<open>\<^verbatim>\<open>Queue<T>::~Queue\<close>: pop while \<^verbatim>\<open>m_size > 0\<close>.\<close>

function Queue_dtor :: "addr \<Rightarrow> 'a state \<Rightarrow> (error + unit) \<times> 'a state" where
  "Queue_dtor this s =
     (case queues s this of
        None \<Rightarrow> (Inl Undefined, s)
      | Some q \<Rightarrow>
         if m_size q > 0 then
           (case popFront this s of
              (Inl e, s') \<Rightarrow> (Inl e, s')
            | (Inr u, s') \<Rightarrow> Queue_dtor this s')
         else (Inr (), s))"
  by pat_completeness auto
termination
  by (relation "measure (\<lambda>(this, s). case queues s this of None \<Rightarrow> 0 | Some q \<Rightarrow> nat (m_size q))")
     (auto simp: popFront_def delete_Node_def split: option.splits if_splits)

text \<open>
  The end of the scope of a local \<^verbatim>\<open>Queue\<close>: its destructor runs and its storage is
  released; \<open>unwind\<close> is the same on the way out with the exception \<open>e\<close>.
\<close>

definition exit_scope :: "addr \<Rightarrow> 'a state \<Rightarrow> (error + unit) \<times> 'a state" where
  "exit_scope local s =
     (case Queue_dtor local s of
        (Inl e, s') \<Rightarrow> (Inl e, s')
      | (Inr u, s') \<Rightarrow> (Inr (), leave local s'))"


text \<open>
  The loop of the copy constructor,
  \<^verbatim>\<open>for(ConstIterator iter = other.begin(); iter != other.end(); ++iter) this->pushBack(*iter);\<close>
  A chain of nodes that runs into a cycle keeps the loop going, so the result is an option.
\<close>

partial_function (option) copy_loop ::
    "addr \<Rightarrow> addr \<Rightarrow> Iterator \<Rightarrow> 'a state \<Rightarrow> ((error + unit) \<times> 'a state) option" where
  "copy_loop this other iter s =
     (if neq iter (Queue_end other) then
        (case deref iter s of
           Inl e \<Rightarrow> Some (Inl e, s)
         | Inr val \<Rightarrow>
            (case pushBack this val s of
               (Inl e, s') \<Rightarrow> Some (Inl e, s')
             | (Inr u, s') \<Rightarrow>
                (case pre_incr iter s' of
                   Inl e \<Rightarrow> Some (Inl e, s')
                 | Inr iter' \<Rightarrow> copy_loop this other iter' s')))
      else Some (Inr (), s))"

declare copy_loop.simps [code]

text \<open>
  \<^verbatim>\<open>Queue<T>::Queue(const Queue& other)\<close>. Only \<^verbatim>\<open>std::bad_alloc\<close> is caught: the
  handler calls the destructor and throws again.
\<close>

definition Queue_copy :: "addr \<Rightarrow> addr \<Rightarrow> 'a state \<Rightarrow> ((error + unit) \<times> 'a state) option" where
  "Queue_copy this other s =
     (let s0 = s\<lparr>queues := (queues s)(this \<mapsto> \<lparr>m_front = None, m_rear = None, m_size = 0\<rparr>)\<rparr> in
      case Queue_begin other s0 of
        Inl e \<Rightarrow> Some (Inl e, s0)
      | Inr iter \<Rightarrow>
         (case copy_loop this other iter s0 of
            None \<Rightarrow> None
          | Some (Inr u, s1) \<Rightarrow> Some (Inr (), s1)
          | Some (Inl e, s1) \<Rightarrow>
             if e = bad_alloc then
               (case Queue_dtor this s1 of
                  (Inl e', s2) \<Rightarrow> Some (Inl e', s2)
                | (Inr u, s2) \<Rightarrow> Some (Inl bad_alloc, s2))
             else Some (Inl e, s1)))"

text \<open>
  \<^verbatim>\<open>Queue<T>::operator=\<close>: the local \<^verbatim>\<open>temp\<close> is copy-constructed from \<^verbatim>\<open>other\<close>, the
  three fields are swapped, and \<^verbatim>\<open>temp\<close> goes out of scope. When the copy constructor
  throws, \<^verbatim>\<open>temp\<close> never existed and only its storage is released.
\<close>

definition assign :: "addr \<Rightarrow> addr \<Rightarrow> 'a state \<Rightarrow> ((error + unit) \<times> 'a state) option" where
  "assign this other s =
     (if this = other then Some (Inr (), s)
      else
        (case enter s of
           (temp, s0) \<Rightarrow>
            (case Queue_copy temp other s0 of
               None \<Rightarrow> None
             | Some (Inl e, s1) \<Rightarrow> Some (Inl e, leave temp s1)
             | Some (Inr u, s1) \<Rightarrow>
                (case queues s1 temp of
                   None \<Rightarrow> Some (Inl Undefined, s1)
                 | Some t \<Rightarrow>
                    (case queues s1 this of
                       None \<Rightarrow> Some (Inl Undefined, s1)
                     | Some q \<Rightarrow>
                        Some (exit_scope temp
                          (s1\<lparr>queues := (queues s1)
                               (temp \<mapsto> t\<lparr>m_front := m_front q, m_rear := m_rear q, m_size := m_size q\<rparr>,
                                this \<mapsto> q\<lparr>m_front := m_front t, m_rear := m_rear t, m_size := m_size t\<rparr>)\<rparr>)))))))"

section \<open>Iteration, filter and transform\<close>

text \<open>
  What a caller sees of a queue: the values met by
  \<^verbatim>\<open>for(it = q.begin(); it != q.end(); ++it)\<close>, collected in the order of the visit.
\<close>

partial_function (option) collect ::
    "addr \<Rightarrow> Iterator \<Rightarrow> 'a list \<Rightarrow> 'a state \<Rightarrow> (error + 'a list) option" where
  "collect this iter seen s =
     (if neq iter (Queue_end this) then
        (case deref iter s of
           Inl e \<Rightarrow> Some (Inl e)
         | Inr val \<Rightarrow>
            (case pre_incr iter s of
               Inl e \<Rightarrow> Some (Inl e)
             | Inr iter' \<Rightarrow> collect this iter' (seen @ [val]) s))
      else Some (Inr seen))"

declare collect.simps [code]

definition elements :: "addr \<Rightarrow> 'a state \<Rightarrow> (error + 'a list) option" where
  "elements this s =
     (case Queue_begin this s of
        Inl e \<Rightarrow> Some (Inl e)
      | Inr iter \<Rightarrow> collect this iter [] s)"








section \<open>Runs of the program\<close>

text \<open>
  The state before anything is declared, the declaration of a default-constructed queue,
  and a run of \<^verbatim>\<open>pushBack\<close> calls that stops at the first exception.
\<close>

definition init_state :: "nat \<Rightarrow> 'a state" where
  "init_state c = \<lparr>nodes = (\<lambda>_. None), capacity = c, queues = (\<lambda>_. None), sp = 0\<rparr>"

definition new_Queue :: "'a state \<Rightarrow> addr \<times> 'a state" where
  "new_Queue s = (case enter s of (this, s0) \<Rightarrow> (this, Queue_default this s0))"

fun push_all :: "addr \<Rightarrow> 'a list \<Rightarrow> 'a state \<Rightarrow> (error + unit) \<times> 'a state" where
  "push_all this [] s = (Inr (), s)"
| "push_all this (v # vs) s =
     (case pushBack this v s of
        (Inl e, s') \<Rightarrow> (Inl e, s')
      | (Inr u, s') \<Rightarrow> push_all this vs s')"

text \<open>A queue at address \<open>0\<close> holding the given values, in a store of sixteen nodes.\<close>

definition demo :: "int list \<Rightarrow> int state" where
  "demo vs = snd (push_all 0 vs (snd (new_Queue (init_state 16))))"


text \<open>
  The two mutating calls on a queue, and a caller that makes such calls on any queues in any
  order and goes on after an exception with the state the call left.
\<close>

datatype 'a mutation = PushBack 'a | PopFront

fun mutate :: "addr \<Rightarrow> 'a mutation \<Rightarrow> 'a state \<Rightarrow> 'a state" where
  "mutate this (PushBack val) s = snd (pushBack this val s)"
| "mutate this PopFront s = snd (popFront this s)"

fun run :: "(addr \<times> 'a mutation) list \<Rightarrow> 'a state \<Rightarrow> 'a state" where
  "run [] s = s"
| "run (c # cs) s = run cs (mutate (fst c) (snd c) s)"



text \<open>
  The states a program reaches with the public operations: declaring a queue (default or
  copy constructed), assigning, pushing and popping, on queues that exist. A call that throws
  leaves the state it had reached; a declaration whose copy constructor throws declares
  nothing.
\<close>

inductive reachable :: "'a state \<Rightarrow> bool" where
  start: "reachable (init_state c)"
| declare_default: "reachable s \<Longrightarrow> reachable (snd (new_Queue s))"
| declare_copy: "reachable s \<Longrightarrow> queues s other \<noteq> None \<Longrightarrow>
     Queue_copy (fst (enter s)) other (snd (enter s)) = Some (r, s') \<Longrightarrow>
     reachable (if r = Inr () then s' else leave (fst (enter s)) s')"
| assignment: "reachable s \<Longrightarrow> queues s this \<noteq> None \<Longrightarrow> queues s other \<noteq> None \<Longrightarrow>
     assign this other s = Some (r, s') \<Longrightarrow> reachable s'"
| push: "reachable s \<Longrightarrow> queues s this \<noteq> None \<Longrightarrow> reachable (snd (pushBack this val s))"
| pop: "reachable s \<Longrightarrow> queues s this \<noteq> None \<Longrightarrow> reachable (snd (popFront this s))"

text \<open>
  Two queues in a store of four nodes: the queue at address \<open>0\<close> holds \<open>[1]\<close>, the queue at
  address \<open>1\<close> holds \<open>[2, 3]\<close>, and one node is free.
\<close>

definition demo2 :: "int state" where
  "demo2 = snd (push_all 1 [2, 3] (snd (new_Queue (snd (push_all 0 [1] (snd (new_Queue (init_state 4))))))))"

section \<open>Abstraction: the cells of a queue\<close>

text \<open>
  \<open>chain h p xs\<close>: following \<^verbatim>\<open>next\<close> from \<open>p\<close> in the store \<open>h\<close> visits the nodes at the
  addresses \<open>map fst xs\<close>, which hold the values \<open>map snd xs\<close>, and ends in \<^verbatim>\<open>nullptr\<close>.
  \<open>cells h p k\<close> computes that list for a chain of \<open>k\<close> nodes; \<open>owned s this\<close> is the list
  for the queue at \<open>this\<close>, with \<^verbatim>\<open>m_size\<close> nodes from \<^verbatim>\<open>m_front\<close>.

  The invariant \<open>state_inv\<close>: every queue object lies below \<open>sp\<close> and owns a chain of
  \<^verbatim>\<open>m_size\<close> nodes from \<^verbatim>\<open>m_front\<close>, whose last node is \<^verbatim>\<open>m_rear\<close> when there is one;
  the chains of different queues share no node; every node lies in the store, that is
  below \<open>capacity\<close>.
\<close>

fun chain :: "(addr \<Rightarrow> 'a Node option) \<Rightarrow> addr option \<Rightarrow> (addr \<times> 'a) list \<Rightarrow> bool" where
  "chain h p [] = (p = None)"
| "chain h p (x # xs) =
     (case h (fst x) of
        None \<Rightarrow> False
      | Some n \<Rightarrow> p = Some (fst x) \<and> data n = snd x \<and> chain h (nxt n) xs)"

fun cells :: "(addr \<Rightarrow> 'a Node option) \<Rightarrow> addr option \<Rightarrow> nat \<Rightarrow> (addr \<times> 'a) list option" where
  "cells h p 0 = (case p of None \<Rightarrow> Some [] | Some a \<Rightarrow> None)"
| "cells h p (Suc k) =
     (case p of
        None \<Rightarrow> None
      | Some a \<Rightarrow>
         (case h a of
            None \<Rightarrow> None
          | Some n \<Rightarrow> map_option ((#) (a, data n)) (cells h (nxt n) k)))"

definition owned :: "'a state \<Rightarrow> addr \<Rightarrow> (addr \<times> 'a) list option" where
  "owned s this =
     (case queues s this of
        None \<Rightarrow> None
      | Some q \<Rightarrow> if m_size q < 0 then None else cells (nodes s) (m_front q) (nat (m_size q)))"

definition queue_inv :: "'a state \<Rightarrow> addr \<Rightarrow> bool" where
  "queue_inv s this =
     (case queues s this of
        None \<Rightarrow> True
      | Some q \<Rightarrow>
         this < sp s \<and>
         (case owned s this of
            None \<Rightarrow> False
          | Some xs \<Rightarrow> xs = [] \<or> m_rear q = Some (fst (last xs))))"

definition footprint :: "'a state \<Rightarrow> addr \<Rightarrow> addr set" where
  "footprint s this = (case owned s this of None \<Rightarrow> {} | Some xs \<Rightarrow> fst ` set xs)"

definition separate :: "'a state \<Rightarrow> addr \<Rightarrow> addr \<Rightarrow> bool" where
  "separate s this that = (footprint s this \<inter> footprint s that = {})"

definition store_inv :: "'a state \<Rightarrow> bool" where
  "store_inv s = (\<forall>a. nodes s a \<noteq> None \<longrightarrow> a < capacity s)"

definition state_inv :: "'a state \<Rightarrow> bool" where
  "state_inv s =
     ((\<forall>this. queue_inv s this) \<and> (\<forall>this that. this \<noteq> that \<longrightarrow> separate s this that) \<and>
      store_inv s)"

definition ptr_of :: "(addr \<times> 'a) list \<Rightarrow> addr option" where
  "ptr_of xs = (case xs of [] \<Rightarrow> None | x # _ \<Rightarrow> Some (fst x))"

definition frame :: "addr \<Rightarrow> 'a state \<Rightarrow> 'a state \<Rightarrow> bool" where
  "frame this s s' =
     (sp s' = sp s \<and> capacity s' = capacity s \<and>
      (\<forall>that. that \<noteq> this \<longrightarrow> queues s' that = queues s that \<and> owned s' that = owned s that))"

section \<open>Chains and the invariant\<close>

lemma cells_Some_chain: "cells h p k = Some xs \<Longrightarrow> chain h p xs \<and> length xs = k"
proof (induction k arbitrary: p xs)
  case 0
  then show ?case by (simp split: option.splits)
next
  case (Suc k)
  from Suc.prems obtain a n ys where *: "p = Some a" "h a = Some n" "cells h (nxt n) k = Some ys"
      "xs = (a, data n) # ys"
    by (auto split: option.splits)
  from Suc.IH[OF *(3)] * show ?case by simp
qed

lemma chain_cells: "chain h p xs \<Longrightarrow> cells h p (length xs) = Some xs"
proof (induction xs arbitrary: p)
  case Nil
  then show ?case by simp
next
  case (Cons x xs)
  from Cons.prems obtain n where *: "h (fst x) = Some n" "p = Some (fst x)" "data n = snd x"
      "chain h (nxt n) xs"
    by (auto split: option.splits)
  from Cons.IH[OF *(4)] * show ?case by simp
qed

lemma cells_chain: "cells h p k = Some xs \<longleftrightarrow> chain h p xs \<and> length xs = k"
  using cells_Some_chain chain_cells by blast

lemma owned_iff:
  "owned s this = Some xs \<longleftrightarrow>
     (\<exists>q. queues s this = Some q \<and> m_size q = int (length xs) \<and> chain (nodes s) (m_front q) xs)"
proof (cases "queues s this")
  case None
  then show ?thesis by (simp add: owned_def)
next
  case (Some q)
  show ?thesis
  proof (cases "m_size q < 0")
    case True
    with Some show ?thesis by (simp add: owned_def)
  next
    case False
    then have "length xs = nat (m_size q) \<longleftrightarrow> m_size q = int (length xs)" by auto
    with Some False show ?thesis by (simp add: owned_def cells_chain) blast
  qed
qed

lemma chain_ptr_of: "chain h p xs \<Longrightarrow> p = ptr_of xs"
  by (cases xs) (auto simp: ptr_of_def split: option.splits)

lemma chain_allocated: "chain h p xs \<Longrightarrow> a \<in> fst ` set xs \<Longrightarrow> h a \<noteq> None"
  by (induction xs arbitrary: p) (auto split: option.splits)

lemma chain_unique: "chain h p xs \<Longrightarrow> chain h p ys \<Longrightarrow> xs = ys"
proof (induction xs arbitrary: p ys)
  case Nil
  then show ?case by (cases ys) (auto split: option.splits)
next
  case (Cons x xs)
  then show ?case by (cases ys) (auto split: option.splits simp: prod_eq_iff)
qed

lemma chain_append:
  "chain h p (xs @ ys) \<Longrightarrow> chain h (ptr_of ys) ys"
  by (induction xs arbitrary: p) (auto split: option.splits dest: chain_ptr_of)

lemma chain_head_fresh:
  assumes "chain h p (x # xs)"
  shows "fst x \<notin> fst ` set xs"
proof
  assume "fst x \<in> fst ` set xs"
  then obtain y where y: "y \<in> set xs" "fst y = fst x" by auto
  then obtain us vs where split: "xs = us @ y # vs" by (auto simp: in_set_conv_decomp)
  from assms obtain n where n: "h (fst x) = Some n" "chain h (nxt n) xs"
    by (auto split: option.splits)
  from n(2) split have "chain h (ptr_of (y # vs)) (y # vs)"
    using chain_append[of h "nxt n" us "y # vs"] by simp
  with y(2) n(1) have "chain h (nxt n) vs"
    by (auto split: option.splits)
  with n(2) have "xs = vs" by (rule chain_unique)
  with split show False by simp
qed

lemma chain_distinct: "chain h p xs \<Longrightarrow> distinct (map fst xs)"
proof (induction xs arbitrary: p)
  case Nil
  then show ?case by simp
next
  case (Cons x xs)
  from Cons.prems have "fst x \<notin> fst ` set xs" by (rule chain_head_fresh)
  moreover from Cons.prems obtain n where "h (fst x) = Some n" "chain h (nxt n) xs"
    by (auto split: option.splits)
  then have "distinct (map fst xs)" using Cons.IH by blast
  ultimately show ?case by simp
qed

lemma chain_update_other:
  "a \<notin> fst ` set xs \<Longrightarrow> chain (h(a := v)) p xs = chain h p xs"
  by (induction xs arbitrary: p) (auto split: option.splits)

lemma chain_snoc:
  assumes "chain h p (xs @ [x])" "h a = None" "h (fst x) = Some n"
  shows "chain (h(a \<mapsto> \<lparr>data = v, nxt = None\<rparr>, fst x \<mapsto> n\<lparr>nxt := Some a\<rparr>)) p (xs @ [x, (a, v)])"
  using assms
proof (induction xs arbitrary: p)
  case Nil
  from Nil(2,3) have ne: "a \<noteq> fst x" by auto
  from Nil(1,3) have "p = Some (fst x)" "data n = snd x" by auto
  with ne show ?case by simp
next
  case (Cons y ys)
  let ?h = "h(a \<mapsto> \<lparr>data = v, nxt = None\<rparr>, fst x \<mapsto> n\<lparr>nxt := Some a\<rparr>)"
  from Cons.prems(1) have d: "distinct (map fst ((y # ys) @ [x]))" by (rule chain_distinct)
  from Cons.prems(1) obtain m where m: "h (fst y) = Some m" "p = Some (fst y)" "data m = snd y"
      "chain h (nxt m) (ys @ [x])"
    by (auto split: option.splits)
  from d have "fst y \<noteq> fst x" by auto
  moreover from m(1) Cons.prems(2) have "fst y \<noteq> a" by auto
  ultimately have hy: "?h (fst y) = Some m" using m(1) by simp
  have "chain ?h (nxt m) (ys @ [x, (a, v)])"
    using m(4) Cons.prems(2,3) by (rule Cons.IH)
  then show ?case
    by (simp only: append_Cons chain.simps hy option.case m(2,3))
qed



lemma owned_cong:
  "queues s' this = queues s this \<Longrightarrow> nodes s' = nodes s \<Longrightarrow> owned s' this = owned s this"
  unfolding owned_def by presburger

lemma chain_agree:
  "chain h p xs \<Longrightarrow> (\<And>b. b \<in> fst ` set xs \<Longrightarrow> h' b = h b) \<Longrightarrow> chain h' p xs"
proof (induction xs arbitrary: p)
  case Nil
  then show ?case by simp
next
  case (Cons x xs)
  from Cons.prems(1) obtain n where n: "h (fst x) = Some n" "p = Some (fst x)" "data n = snd x"
      "chain h (nxt n) xs"
    by (auto split: option.splits)
  from Cons.prems(2) have "h' (fst x) = h (fst x)" by simp
  moreover from n(4) Cons.prems(2) have "chain h' (nxt n) xs" by (intro Cons.IH) auto
  ultimately show ?case using n by simp
qed

lemma owned_Some_agree:
  assumes "owned s this = Some xs" "queues s' this = queues s this"
    and "\<And>b. b \<in> fst ` set xs \<Longrightarrow> nodes s' b = nodes s b"
  shows "owned s' this = Some xs"
proof -
  from assms(1) obtain q where q: "queues s this = Some q" "m_size q = int (length xs)"
      "chain (nodes s) (m_front q) xs"
    by (auto simp: owned_iff)
  from q(3) assms(3) have "chain (nodes s') (m_front q) xs" by (rule chain_agree)
  with q(1,2) assms(2) show ?thesis by (auto simp: owned_iff)
qed

lemma owned_dead: "queues s this = None \<Longrightarrow> owned s this = None"
  by (simp add: owned_def)

lemma owned_live: "owned s this = Some xs \<Longrightarrow> queues s this \<noteq> None"
  by (auto simp: owned_def split: option.splits)

lemma footprint_owned: "owned s this = Some xs \<Longrightarrow> footprint s this = fst ` set xs"
  by (simp add: footprint_def)

lemma footprint_dead: "queues s this = None \<Longrightarrow> footprint s this = {}"
  by (simp add: footprint_def owned_dead)

lemma state_invD_queue:
  assumes "state_inv s" "queues s this = Some q"
  shows "this < sp s \<and> (\<exists>xs. owned s this = Some xs \<and> (xs = [] \<or> m_rear q = Some (fst (last xs))))"
proof -
  from assms(1) have "queue_inv s this" by (simp add: state_inv_def)
  with assms(2) show ?thesis by (cases "owned s this") (simp_all add: queue_inv_def)
qed

lemma state_invD_sep:
  assumes "state_inv s" "this \<noteq> that" "owned s this = Some xs" "owned s that = Some ys"
  shows "fst ` set xs \<inter> fst ` set ys = {}"
proof -
  from assms(1,2) have "separate s this that" by (simp add: state_inv_def)
  with assms(3,4) show ?thesis by (simp add: separate_def footprint_def)
qed

lemma owned_allocated: "owned s this = Some xs \<Longrightarrow> a \<in> fst ` set xs \<Longrightarrow> nodes s a \<noteq> None"
  unfolding owned_iff using chain_allocated by fast

lemma new_Node_cases:
  obtains (full) "new_Node val s = (Inl bad_alloc, s)"
  | (fresh) a where "new_Node val s = (Inr a, s\<lparr>nodes := (nodes s)(a \<mapsto> \<lparr>data = val, nxt = None\<rparr>)\<rparr>)"
      "nodes s a = None" "a < capacity s"
proof (cases "find (\<lambda>a. nodes s a = None) [0..<capacity s]")
  case None
  then show ?thesis using full by (simp add: new_Node_def)
next
  case (Some a)
  then have "nodes s a = None" "a < capacity s" by (auto simp: find_Some_iff)
  with Some show ?thesis using fresh by (simp add: new_Node_def)
qed


lemma footprint_allocated: "a \<in> footprint s this \<Longrightarrow> nodes s a \<noteq> None"
  by (cases "owned s this") (auto simp: footprint_def dest: owned_allocated)

lemma state_inv_live_owned:
  "state_inv s \<Longrightarrow> queues s this \<noteq> None \<Longrightarrow> \<exists>xs. owned s this = Some xs"
  using state_invD_queue by fastforce

text \<open>An operation on one queue that touches only its own cells and free cells.\<close>

lemma local_step:
  assumes inv: "state_inv s"
    and sp: "sp s' = sp s" and cap: "capacity s' = capacity s"
    and others: "\<And>that. that \<noteq> this \<Longrightarrow> queues s' that = queues s that"
    and keep: "\<And>b. b \<notin> footprint s this \<Longrightarrow> nodes s b \<noteq> None \<Longrightarrow> nodes s' b = nodes s b"
    and new: "queues s' this = Some q'" "owned s' this = Some xs'" "this < sp s"
      "xs' = [] \<or> m_rear q' = Some (fst (last xs'))"
    and fp: "\<And>b. b \<in> fst ` set xs' \<Longrightarrow> b \<in> footprint s this \<or> nodes s b = None"
    and room: "\<And>b. nodes s' b \<noteq> None \<Longrightarrow> nodes s b \<noteq> None \<or> b < capacity s"
  shows "state_inv s' \<and> frame this s s'"
proof -
  have other_owned: "owned s' that = owned s that" if "that \<noteq> this" for that
  proof (cases "queues s that")
    case None
    with others[OF that] show ?thesis by (simp add: owned_dead)
  next
    case (Some q)
    with inv obtain zs where zs: "owned s that = Some zs"
      using state_inv_live_owned[of s that] by auto
    have "nodes s' b = nodes s b" if b: "b \<in> fst ` set zs" for b
    proof (rule keep)
      from inv \<open>that \<noteq> this\<close> have "footprint s that \<inter> footprint s this = {}"
        by (simp add: state_inv_def separate_def)
      with b zs show "b \<notin> footprint s this" by (auto simp: footprint_owned)
      from zs b show "nodes s b \<noteq> None" by (rule owned_allocated)
    qed
    with zs others[OF \<open>that \<noteq> this\<close>] have "owned s' that = Some zs"
      by (intro owned_Some_agree[of s that zs s']) auto
    with zs show ?thesis by simp
  qed
  then have fr: "frame this s s'" using sp cap others by (simp add: frame_def)
  have other_fp: "footprint s' that = footprint s that" if "that \<noteq> this" for that
    using other_owned[OF that] by (simp add: footprint_def)
  have this_fp: "footprint s' this \<inter> footprint s that = {}" if "that \<noteq> this" for that
  proof -
    from inv that have d: "footprint s this \<inter> footprint s that = {}"
      by (simp add: state_inv_def separate_def)
    have "b \<notin> footprint s that" if "b \<in> footprint s' this" for b
    proof -
      from that new(2) have "b \<in> fst ` set xs'" by (simp add: footprint_owned)
      then have "b \<in> footprint s this \<or> nodes s b = None" by (rule fp)
      with d show ?thesis using footprint_allocated[of b s] by auto
    qed
    then show ?thesis by auto
  qed
  have "state_inv s'"
    unfolding state_inv_def
  proof (intro conjI allI impI)
    fix that
    show "queue_inv s' that"
    proof (cases "that = this")
      case True
      with new sp show ?thesis by (simp add: queue_inv_def)
    next
      case False
      have "queue_inv s' that = queue_inv s that"
        unfolding queue_inv_def others[OF False] other_owned[OF False] sp ..
      with inv show ?thesis by (simp add: state_inv_def)
    qed
  next
    fix a b :: addr
    assume ne: "a \<noteq> b"
    show "separate s' a b"
    proof (cases "a = this")
      case True
      with ne have "b \<noteq> this" by simp
      from this_fp[OF this] other_fp[OF this] True show ?thesis by (simp add: separate_def)
    next
      case False
      show ?thesis
      proof (cases "b = this")
        case True
        from this_fp[OF False] other_fp[OF False] True show ?thesis
          by (auto simp: separate_def)
      next
        case b: False
        from inv ne have "separate s a b" by (simp add: state_inv_def)
        with other_fp[OF False] other_fp[OF b] show ?thesis by (simp add: separate_def)
      qed
    qed
  next
    from inv have "store_inv s" by (simp add: state_inv_def)
    with room cap show "store_inv s'" by (fastforce simp: store_inv_def)
  qed
with fr show ?thesis by simp
qed

lemma owned_rear:
  assumes "state_inv s" "owned s this = Some xs" "queues s this = Some q"
  shows "this < sp s" and "xs = [] \<or> m_rear q = Some (fst (last xs))"
  using state_invD_queue[OF assms(1,3)] assms(2) by auto

lemma pushBack_cases:
  assumes inv: "state_inv s" and own: "owned s this = Some xs"
  obtains (full) "pushBack this val s = (Inl bad_alloc, s)"
  | (pushed) a s' where "pushBack this val s = (Inr (), s')"
      "owned s' this = Some (xs @ [(a, val)])" "frame this s s'" "state_inv s'"
      "nodes s a = None" "\<forall>b. b \<notin> fst ` set (xs @ [(a, val)]) \<longrightarrow> nodes s' b = nodes s b"
proof -
  from own obtain q where q: "queues s this = Some q" "m_size q = int (length xs)"
      "chain (nodes s) (m_front q) xs"
    by (auto simp: owned_iff)
  note below = owned_rear(1)[OF inv own q(1)] and rear = owned_rear(2)[OF inv own q(1)]
  have fp: "footprint s this = fst ` set xs" using own by (rule footprint_owned)
  show thesis
  proof (cases rule: new_Node_cases[of val s])
    case full
    then have "pushBack this val s = (Inl bad_alloc, s)" by (simp add: pushBack_def q(1))
    then show thesis by (rule that(1))
  next
    case (fresh a)
    let ?N = "\<lparr>data = val, nxt = None\<rparr>"
    show thesis
    proof (cases "xs = []")
      case True
      define q' where "q' = q\<lparr>m_front := Some a, m_rear := Some a, m_size := m_size q + 1\<rparr>"
      define s' where "s' = s\<lparr>nodes := (nodes s)(a \<mapsto> ?N), queues := (queues s)(this \<mapsto> q')\<rparr>"
      from True q(2) have res: "pushBack this val s = (Inr (), s')"
        by (simp add: pushBack_def q(1) fresh(1) s'_def q'_def)
      from True q(2) have own': "owned s' this = Some (xs @ [(a, val)])"
        by (simp add: owned_iff s'_def q'_def)
      have "state_inv s' \<and> frame this s s'"
      proof (rule local_step[OF inv, where this = this and q' = q' and xs' = "xs @ [(a, val)]"])
        show "sp s' = sp s" "capacity s' = capacity s" by (simp_all add: s'_def)
        show "queues s' that = queues s that" if "that \<noteq> this" for that
          using that by (simp add: s'_def)
        show "nodes s' b = nodes s b" if "nodes s b \<noteq> None" for b
          using that fresh(2) by (auto simp: s'_def)
        show "queues s' this = Some q'" by (simp add: s'_def)
        show "owned s' this = Some (xs @ [(a, val)])" by (rule own')
        show "this < sp s" by (rule below)
        show "xs @ [(a, val)] = [] \<or> m_rear q' = Some (fst (last (xs @ [(a, val)])))"
          by (simp add: q'_def)
        show "b \<in> footprint s this \<or> nodes s b = None" if "b \<in> fst ` set (xs @ [(a, val)])" for b
          using that fresh(2) True by auto
        show "nodes s b \<noteq> None \<or> b < capacity s" if "nodes s' b \<noteq> None" for b
          using that fresh(3) by (cases "b = a") (simp_all add: s'_def)
      qed
      moreover have "\<forall>b. b \<notin> fst ` set (xs @ [(a, val)]) \<longrightarrow> nodes s' b = nodes s b"
        using True by (auto simp: s'_def)
      ultimately show thesis using res own' fresh(2) that(2) by blast
    next
      case False
      with rear have r: "m_rear q = Some (fst (last xs))" by simp
      from False q(2) have nz: "m_size q \<noteq> 0" by simp
      from False have "fst (last xs) \<in> fst ` set xs" by simp
      with own obtain n where n: "nodes s (fst (last xs)) = Some n"
        using owned_allocated[of s this xs "fst (last xs)"] by auto
      with fresh(2) have ne: "fst (last xs) \<noteq> a" by auto
      define q' where "q' = q\<lparr>m_rear := Some a, m_size := m_size q + 1\<rparr>"
      define s' where "s' = s\<lparr>nodes := (nodes s)(a \<mapsto> ?N, fst (last xs) \<mapsto> n\<lparr>nxt := Some a\<rparr>),
                              queues := (queues s)(this \<mapsto> q')\<rparr>"
      from nz r n ne have res: "pushBack this val s = (Inr (), s')"
        by (simp add: pushBack_def q(1) fresh(1) s'_def q'_def)
      from False q(3) have "chain (nodes s) (m_front q) (butlast xs @ [last xs])" by simp
      then have "chain (nodes s') (m_front q) (butlast xs @ [last xs, (a, val)])"
        unfolding s'_def using fresh(2) n by (simp add: chain_snoc)
      moreover from False have "butlast xs @ [last xs, (a, val)] = xs @ [(a, val)]"
        by (metis append_Cons append_Nil append_assoc append_butlast_last_id)
      ultimately have "chain (nodes s') (m_front q) (xs @ [(a, val)])" by simp
      with q(2) have own': "owned s' this = Some (xs @ [(a, val)])"
        by (simp add: owned_iff s'_def q'_def)
      have "state_inv s' \<and> frame this s s'"
      proof (rule local_step[OF inv, where this = this and q' = q' and xs' = "xs @ [(a, val)]"])
        show "sp s' = sp s" "capacity s' = capacity s" by (simp_all add: s'_def)
        show "queues s' that = queues s that" if "that \<noteq> this" for that
          using that by (simp add: s'_def)
        show "nodes s' b = nodes s b" if "b \<notin> footprint s this" "nodes s b \<noteq> None" for b
          using that fresh(2) False by (auto simp: s'_def fp)
        show "queues s' this = Some q'" by (simp add: s'_def)
        show "owned s' this = Some (xs @ [(a, val)])" by (rule own')
        show "this < sp s" by (rule below)
        show "xs @ [(a, val)] = [] \<or> m_rear q' = Some (fst (last (xs @ [(a, val)])))"
          by (simp add: q'_def)
        show "b \<in> footprint s this \<or> nodes s b = None" if "b \<in> fst ` set (xs @ [(a, val)])" for b
          using that fresh(2) by (auto simp: fp)
        show "nodes s b \<noteq> None \<or> b < capacity s" if "nodes s' b \<noteq> None" for b
          using that fresh(3) n by (cases "b = a"; cases "b = fst (last xs)") (simp_all add: s'_def)
      qed
      moreover have "\<forall>b. b \<notin> fst ` set (xs @ [(a, val)]) \<longrightarrow> nodes s' b = nodes s b"
        using False by (auto simp: s'_def)
      ultimately show thesis using res own' fresh(2) that(2) by blast
    qed
  qed
qed


lemma popFront_empty:
  assumes "owned s this = Some []"
  shows "popFront this s = (Inl EmptyQueue, s)"
  using assms by (auto simp: owned_iff popFront_def)

lemma popFront_cons:
  assumes inv: "state_inv s" and own: "owned s this = Some (x # xs)"
  obtains s' where "popFront this s = (Inr (), s')" "owned s' this = Some xs"
    "frame this s s'" "state_inv s'"
    "\<forall>b. nodes s' b = (if b = fst x then None else nodes s b)"
proof -
  from own obtain q where q: "queues s this = Some q" "m_size q = int (length (x # xs))"
      "chain (nodes s) (m_front q) (x # xs)"
    by (auto simp: owned_iff)
  note below = owned_rear(1)[OF inv own q(1)] and rear = owned_rear(2)[OF inv own q(1)]
  have fp: "footprint s this = fst ` set (x # xs)" using own by (rule footprint_owned)
  from q(3) obtain n where n: "nodes s (fst x) = Some n" "m_front q = Some (fst x)"
      "chain (nodes s) (nxt n) xs"
    by (auto split: option.splits)
  from q(3) have fresh: "fst x \<notin> fst ` set xs" by (rule chain_head_fresh)
  define q' where "q' = q\<lparr>m_front := nxt n, m_size := m_size q - 1\<rparr>"
  define s' where "s' = s\<lparr>nodes := (nodes s)(fst x := None), queues := (queues s)(this \<mapsto> q')\<rparr>"
  from q(2) n have res: "popFront this s = (Inr (), s')"
    by (simp add: popFront_def q(1) delete_Node_def s'_def q'_def)
  from n(3) fresh have "chain (nodes s') (nxt n) xs"
    by (simp add: s'_def chain_update_other)
  with q(2) have own': "owned s' this = Some xs"
    by (simp add: owned_iff s'_def q'_def)
  have "state_inv s' \<and> frame this s s'"
  proof (rule local_step[OF inv, where this = this and q' = q' and xs' = xs])
    show "sp s' = sp s" "capacity s' = capacity s" by (simp_all add: s'_def)
    show "queues s' that = queues s that" if "that \<noteq> this" for that
      using that by (simp add: s'_def)
    show "nodes s' b = nodes s b" if "b \<notin> footprint s this" for b
      using that by (auto simp: s'_def fp)
    show "queues s' this = Some q'" by (simp add: s'_def)
    show "owned s' this = Some xs" by (rule own')
    show "this < sp s" by (rule below)
    show "xs = [] \<or> m_rear q' = Some (fst (last xs))"
      using rear by (auto simp: q'_def)
    show "b \<in> footprint s this \<or> nodes s b = None" if "b \<in> fst ` set xs" for b
      using that by (auto simp: fp)
    show "nodes s b \<noteq> None \<or> b < capacity s" if "nodes s' b \<noteq> None" for b
      using that by (cases "b = fst x") (simp_all add: s'_def)
  qed
  moreover have "\<forall>b. nodes s' b = (if b = fst x then None else nodes s b)"
    by (simp add: s'_def)
  ultimately show thesis using res own' that by blast
qed



lemma frame_refl: "frame this s s"
  by (simp add: frame_def)

lemma frame_trans: "frame this s s' \<Longrightarrow> frame this s' s'' \<Longrightarrow> frame this s s''"
  by (simp add: frame_def)

lemma frame_owned: "frame this s s' \<Longrightarrow> that \<noteq> this \<Longrightarrow> owned s' that = owned s that"
  by (simp add: frame_def)

lemma Queue_dtor_owned:
  assumes "state_inv s" "owned s this = Some xs"
  shows "\<exists>s'. Queue_dtor this s = (Inr (), s') \<and> owned s' this = Some [] \<and>
              frame this s s' \<and> state_inv s' \<and>
              (\<forall>b. nodes s' b = (if b \<in> fst ` set xs then None else nodes s b))"
  using assms
proof (induction xs arbitrary: s)
  case Nil
  then have "Queue_dtor this s = (Inr (), s)" by (auto simp: owned_iff)
  with Nil show ?case by (auto simp: frame_refl)
next
  case (Cons x xs)
  from Cons.prems obtain s1 where s1: "popFront this s = (Inr (), s1)" "owned s1 this = Some xs"
      "frame this s s1" "state_inv s1" "\<forall>b. nodes s1 b = (if b = fst x then None else nodes s b)"
    by (rule popFront_cons)
  from Cons.IH[OF s1(4,2)] obtain s' where s': "Queue_dtor this s1 = (Inr (), s')"
      "owned s' this = Some []" "frame this s1 s'" "state_inv s'"
      "\<forall>b. nodes s' b = (if b \<in> fst ` set xs then None else nodes s1 b)"
    by blast
  from Cons.prems(2) have "Queue_dtor this s = Queue_dtor this s1"
    by (subst Queue_dtor.simps) (auto simp: owned_iff s1(1))
  with s' s1(3,5) show ?case by (auto intro: frame_trans)
qed


lemma owned_distinct: "owned s this = Some xs \<Longrightarrow> distinct (map fst xs)"
  unfolding owned_iff using chain_distinct by blast

lemma at_end:
  assumes "m_currentNode iter = ptr_of []"
  shows "\<not> neq iter (Queue_end q)"
  using assms by (simp add: neq_def Queue_end_def ptr_of_def)

lemma at_cell:
  assumes "owned s other = Some (done @ x # xs)" "m_currentNode iter = ptr_of (x # xs)"
  shows "neq iter (Queue_end q)" and "deref iter s = Inr (snd x)"
    and "\<exists>iter'. pre_incr iter s = Inr iter' \<and> m_currentNode iter' = ptr_of xs"
proof -
  from assms(1) obtain qo where "queues s other = Some qo"
      "chain (nodes s) (m_front qo) (done @ x # xs)"
    by (auto simp: owned_iff)
  then have "chain (nodes s) (ptr_of (x # xs)) (x # xs)" using chain_append by blast
  then obtain n where n: "nodes s (fst x) = Some n" "data n = snd x" "chain (nodes s) (nxt n) xs"
    by (auto split: option.splits)
  from n(3) have nx: "nxt n = ptr_of xs" by (rule chain_ptr_of)
  from assms(2) have cur: "m_currentNode iter = Some (fst x)" by (simp add: ptr_of_def)
  then show "neq iter (Queue_end q)" by (simp add: neq_def Queue_end_def)
  from cur n show "deref iter s = Inr (snd x)" by (simp add: deref_def)
  from cur n nx show "\<exists>iter'. pre_incr iter s = Inr iter' \<and> m_currentNode iter' = ptr_of xs"
    by (simp add: pre_incr_def)
qed



lemma copy_loop_owned:
  assumes "state_inv s" "this \<noteq> other" "owned s other = Some (done @ rest)"
    "m_currentNode iter = ptr_of rest" "owned s this = Some zs"
  shows "\<exists>r s' zs'. copy_loop this other iter s = Some (r, s') \<and> state_inv s' \<and> frame this s s' \<and>
            owned s' this = Some (zs @ zs') \<and>
            (\<forall>b \<in> fst ` set zs'. nodes s b = None) \<and>
            (\<forall>b. b \<notin> fst ` set (zs @ zs') \<longrightarrow> nodes s' b = nodes s b) \<and>
            (r = Inr () \<and> map snd zs' = map snd rest \<or> r = Inl bad_alloc)"
  using assms
proof (induction rest arbitrary: "done" iter s zs)
  case Nil
  from at_end[OF Nil(4)] have "copy_loop this other iter s = Some (Inr (), s)"
    by (subst copy_loop.simps) simp
  with Nil(1,5) show ?case by (auto simp: frame_refl)
next
  case (Cons x xs)
  note c = at_cell[OF Cons.prems(3,4)]
  from Cons.prems(1,5) show ?case
  proof (cases rule: pushBack_cases[where val = "snd x"])
    case full
    then have "copy_loop this other iter s = Some (Inl bad_alloc, s)"
      by (subst copy_loop.simps) (simp add: c(1,2))
    with Cons.prems(1,5) show ?thesis by (auto simp: frame_refl)
  next
    case (pushed a s1)
    from pushed(3) Cons.prems(2,3) have other1: "owned s1 other = Some ((done @ [x]) @ xs)"
      by (simp add: frame_def)
    then have "owned s1 other = Some (done @ x # xs)" by simp
    from at_cell(3)[OF this Cons.prems(4)] obtain iter' where
      iter': "pre_incr iter s1 = Inr iter'" "m_currentNode iter' = ptr_of xs"
      by blast
    from Cons.IH[OF pushed(4) Cons.prems(2) other1 iter'(2) pushed(2)]
    obtain r s' zs' where rec: "copy_loop this other iter' s1 = Some (r, s')" "state_inv s'"
        "frame this s1 s'" "owned s' this = Some ((zs @ [(a, snd x)]) @ zs')"
        "\<forall>b \<in> fst ` set zs'. nodes s1 b = None"
        "\<forall>b. b \<notin> fst ` set ((zs @ [(a, snd x)]) @ zs') \<longrightarrow> nodes s' b = nodes s1 b"
        "r = Inr () \<and> map snd zs' = map snd xs \<or> r = Inl bad_alloc"
      by blast
    have run: "copy_loop this other iter s = Some (r, s')"
      by (subst copy_loop.simps) (simp add: c(1,2) pushed(1) iter'(1) rec(1))
    have fr: "frame this s s'" using pushed(3) rec(3) by (rule frame_trans)
    have own: "owned s' this = Some (zs @ ((a, snd x) # zs'))" using rec(4) by simp
    have free: "\<forall>b \<in> fst ` set ((a, snd x) # zs'). nodes s b = None"
    proof
      fix b assume b: "b \<in> fst ` set ((a, snd x) # zs')"
      show "nodes s b = None"
      proof (cases "b = a")
        case True
        with pushed(5) show ?thesis by simp
      next
        case False
        with b have bz: "b \<in> fst ` set zs'" by auto
        from rec(5) bz have n1: "nodes s1 b = None" by (rule bspec)
        from rec(4) have "distinct (map fst ((zs @ [(a, snd x)]) @ zs'))"
          by (rule owned_distinct)
        with bz have "b \<notin> fst ` set (zs @ [(a, snd x)])" by auto
        with pushed(6) n1 show ?thesis by auto
      qed
    qed
    have same: "\<forall>b. b \<notin> fst ` set (zs @ ((a, snd x) # zs')) \<longrightarrow> nodes s' b = nodes s b"
      using rec(6) pushed(6) by auto
    from rec(7) have "r = Inr () \<and> map snd ((a, snd x) # zs') = map snd (x # xs) \<or> r = Inl bad_alloc"
      by auto
    with run rec(2) fr own free same show ?thesis by blast
  qed
qed

lemma init_member_inv:
  assumes inv: "state_inv s" and below: "this < sp s"
  defines "s0 \<equiv> s\<lparr>queues := (queues s)(this \<mapsto> \<lparr>m_front = None, m_rear = None, m_size = 0\<rparr>)\<rparr>"
  shows "state_inv s0 \<and> frame this s s0" and "owned s0 this = Some []" and "nodes s0 = nodes s"
proof -
  show own: "owned s0 this = Some []" by (simp add: owned_iff s0_def)
  show "nodes s0 = nodes s" by (simp add: s0_def)
  show "state_inv s0 \<and> frame this s s0"
  proof (rule local_step[OF inv, where this = this and xs' = "[]"
          and q' = "\<lparr>m_front = None, m_rear = None, m_size = 0\<rparr>"])
    show "sp s0 = sp s" "capacity s0 = capacity s" by (simp_all add: s0_def)
    show "queues s0 that = queues s that" if "that \<noteq> this" for that
      using that by (simp add: s0_def)
    show "nodes s0 b = nodes s b" for b by (simp add: s0_def)
    show "queues s0 this = Some \<lparr>m_front = None, m_rear = None, m_size = 0\<rparr>" by (simp add: s0_def)
    show "owned s0 this = Some []" by (rule own)
    show "this < sp s" by (rule below)
    show "[] = [] \<or> m_rear \<lparr>m_front = None, m_rear = None, m_size = 0\<rparr> = Some (fst (last []))"
      by simp
    show "b \<in> footprint s this \<or> nodes s b = None" if "b \<in> fst ` set []" for b
      using that by simp
    show "nodes s b \<noteq> None \<or> b < capacity s" if "nodes s0 b \<noteq> None" for b
      using that by (simp add: s0_def)
  qed
qed

lemma state_inv_top_dead:
  assumes "state_inv s" "sp s \<le> this"
  shows "queues s this = None"
proof (cases "queues s this")
  case (Some q)
  with assms(1) have "this < sp s" using state_invD_queue by blast
  with assms(2) show ?thesis by simp
qed simp

lemma enter_inv:
  assumes inv: "state_inv s"
  shows "state_inv (s\<lparr>sp := Suc (sp s)\<rparr>)"
proof -
  let ?s = "s\<lparr>sp := Suc (sp s)\<rparr>"
  have o: "owned ?s that = owned s that" for that by (rule owned_cong) simp_all
  have "queue_inv ?s that" for that
  proof -
    from inv have "queue_inv s that" by (simp add: state_inv_def)
    then show ?thesis unfolding queue_inv_def o by (auto split: option.splits)
  qed
  moreover have "separate ?s a b = separate s a b" for a b
    unfolding separate_def footprint_def o ..
  ultimately show ?thesis using inv by (simp add: state_inv_def store_inv_def)
qed

lemma leave_inv:
  assumes inv: "state_inv s"
  shows "state_inv (leave this s)"
proof -
  let ?s = "leave this s"
  have o: "owned ?s that = owned s that" if "that \<noteq> this" for that
    using that by (intro owned_cong) (simp_all add: leave_def)
  have d: "owned ?s this = None" by (simp add: owned_def leave_def)
  have "queue_inv ?s that" for that
  proof (cases "that = this")
    case True
    then show ?thesis by (simp add: queue_inv_def leave_def)
  next
    case False
    from inv have qi: "queue_inv s that" by (simp add: state_inv_def)
    show ?thesis
    proof (cases "queues s that")
      case None
      with False show ?thesis by (simp add: queue_inv_def leave_def)
    next
      case (Some q)
      with qi have "that < sp s" by (simp add: queue_inv_def)
      with False have "that < sp ?s" by (auto simp: leave_def)
      moreover from False Some have "queues ?s that = Some q" by (simp add: leave_def)
      ultimately show ?thesis using qi Some o[OF False] by (simp add: queue_inv_def)
    qed
  qed
  moreover have "separate ?s a b" if "a \<noteq> b" for a b
  proof -
    from inv that have "separate s a b" by (simp add: state_inv_def)
    then show ?thesis
      using o[of a] o[of b] d by (cases "a = this"; cases "b = this") (auto simp: separate_def footprint_def)
  qed
  moreover from inv have "store_inv ?s" by (simp add: state_inv_def store_inv_def leave_def)
  ultimately show ?thesis by (simp add: state_inv_def)
qed

lemma Queue_copy_owned:
  assumes inv: "state_inv s" and below: "this < sp s" and ne: "this \<noteq> other"
    and other: "owned s other = Some xs"
  shows "\<exists>r s'. Queue_copy this other s = Some (r, s') \<and> state_inv s' \<and> frame this s s' \<and>
            (r = Inr () \<and> (\<exists>zs. owned s' this = Some zs \<and> map snd zs = map snd xs) \<or>
             r = Inl bad_alloc \<and> owned s' this = Some [] \<and> nodes s' = nodes s)"
proof -
  define s0 where "s0 = s\<lparr>queues := (queues s)(this \<mapsto> \<lparr>m_front = None, m_rear = None, m_size = 0\<rparr>)\<rparr>"
  note i = init_member_inv[OF inv below, folded s0_def]
  from i(1) have inv0: "state_inv s0" and fr0: "frame this s s0" by simp_all
  from fr0 ne other have other0: "owned s0 other = Some ([] @ xs)" by (simp add: frame_def)
  then obtain qo where qo: "queues s0 other = Some qo" "chain (nodes s0) (m_front qo) xs"
    by (auto simp: owned_iff)
  define iter where "iter = \<lparr>m_ptr = other, m_currentNode = m_front qo\<rparr>"
  from qo(1) have beg: "Queue_begin other s0 = Inr iter" by (simp add: Queue_begin_def iter_def)
  from qo(2) have pos: "m_currentNode iter = ptr_of xs" by (simp add: iter_def chain_ptr_of)
  from copy_loop_owned[OF inv0 ne other0 pos i(2)]
  obtain r s1 zs where loop: "copy_loop this other iter s0 = Some (r, s1)" "state_inv s1"
      "frame this s0 s1" "owned s1 this = Some zs" "\<forall>b \<in> fst ` set zs. nodes s0 b = None"
      "\<forall>b. b \<notin> fst ` set zs \<longrightarrow> nodes s1 b = nodes s0 b"
      "r = Inr () \<and> map snd zs = map snd xs \<or> r = Inl bad_alloc"
    by auto
  from fr0 loop(3) have fr1: "frame this s s1" by (rule frame_trans)
  from loop(7) show ?thesis
  proof
    assume ok: "r = Inr () \<and> map snd zs = map snd xs"
    with loop(1) beg have "Queue_copy this other s = Some (Inr (), s1)"
      by (simp add: Queue_copy_def Let_def s0_def[symmetric])
    with ok loop(2,4) fr1 show ?thesis by auto
  next
    assume bad: "r = Inl bad_alloc"
    from Queue_dtor_owned[OF loop(2,4)] obtain s2 where s2: "Queue_dtor this s1 = (Inr (), s2)"
        "owned s2 this = Some []" "frame this s1 s2" "state_inv s2"
        "\<forall>b. nodes s2 b = (if b \<in> fst ` set zs then None else nodes s1 b)"
      by blast
    from bad loop(1) beg s2(1) have "Queue_copy this other s = Some (Inl bad_alloc, s2)"
      by (simp add: Queue_copy_def Let_def s0_def[symmetric])
    moreover have "nodes s2 = nodes s"
    proof
      fix b
      show "nodes s2 b = nodes s b" using s2(5) loop(5,6) i(3) by (cases "b \<in> fst ` set zs") auto
    qed
    moreover from fr1 s2(3) have "frame this s s2" by (rule frame_trans)
    ultimately show ?thesis using s2(2,4) by auto
  qed
qed

lemma Queue_fields_eq:
  "(t :: Queue)\<lparr>m_front := m_front q, m_rear := m_rear q, m_size := m_size q\<rparr> = q"
  by simp

lemma owned_eqI:
  "queues s' a = queues s b \<Longrightarrow> nodes s' = nodes s \<Longrightarrow> owned s' a = owned s b"
  by (simp add: owned_def split: option.splits)

lemma swap_inv:
  assumes inv: "state_inv s" and ne: "a \<noteq> b"
    and qa: "queues s a = Some qa" and qb: "queues s b = Some qb"
  defines "s' \<equiv> s\<lparr>queues := (queues s)(a \<mapsto> qb, b \<mapsto> qa)\<rparr>"
  shows "state_inv s'" and "owned s' a = owned s b" and "owned s' b = owned s a"
    and "\<And>c. c \<noteq> a \<Longrightarrow> c \<noteq> b \<Longrightarrow> owned s' c = owned s c \<and> queues s' c = queues s c"
proof -
  show oa: "owned s' a = owned s b" using ne qb by (intro owned_eqI) (simp_all add: s'_def)
  show ob: "owned s' b = owned s a" using ne qa by (intro owned_eqI) (simp_all add: s'_def)
  show oc: "owned s' c = owned s c \<and> queues s' c = queues s c" if "c \<noteq> a" "c \<noteq> b" for c
  proof
    show "queues s' c = queues s c" using that by (simp add: s'_def)
    then show "owned s' c = owned s c" by (rule owned_eqI) (simp add: s'_def)
  qed
  define \<pi> where "\<pi> c = (if c = a then b else if c = b then a else c)" for c
  have o: "owned s' c = owned s (\<pi> c)" for c
    using oa ob oc[of c] by (auto simp: \<pi>_def)
  have q: "queues s' c = queues s (\<pi> c)" for c
    using ne qa qb by (auto simp: \<pi>_def s'_def)
  have lt: "c < sp s" if "queues s c \<noteq> None" for c
    using that inv state_invD_queue[of s c] by auto
  have "queue_inv s' c" for c
  proof -
    from inv have "queue_inv s (\<pi> c)" by (simp add: state_inv_def)
    moreover have "c < sp s'" if "queues s (\<pi> c) \<noteq> None"
    proof -
      from that have "queues s c \<noteq> None" using qa qb by (auto simp: \<pi>_def split: if_splits)
      then show ?thesis using lt by (simp add: s'_def)
    qed
    ultimately show ?thesis unfolding queue_inv_def o q by (auto split: option.splits)
  qed
  moreover have "separate s' c d" if "c \<noteq> d" for c d
  proof -
    from that ne have "\<pi> c \<noteq> \<pi> d" by (auto simp: \<pi>_def)
    with inv have "separate s (\<pi> c) (\<pi> d)" by (simp add: state_inv_def)
    then show ?thesis unfolding separate_def footprint_def o .
  qed
  moreover from inv have "store_inv s'" by (simp add: state_inv_def store_inv_def s'_def)
  ultimately show "state_inv s'" by (simp add: state_inv_def)
qed

lemma leave_top_restores:
  assumes "nodes s1 = nodes s" "capacity s1 = capacity s" "sp s1 = Suc (sp s)"
    and "queues s (sp s) = None" "\<And>c. c \<noteq> sp s \<Longrightarrow> queues s1 c = queues s c"
  shows "leave (sp s) s1 = s"
proof (rule state.equality)
  show "queues (leave (sp s) s1) = queues s"
  proof
    fix c show "queues (leave (sp s) s1) c = queues s c"
      using assms(4,5) by (cases "c = sp s") (simp_all add: leave_def)
  qed
qed (simp_all add: leave_def assms(1,2,3))

lemma assign_owned:
  assumes inv: "state_inv s" and ne: "this \<noteq> other"
    and own: "owned s this = Some ys" and other: "owned s other = Some xs"
  shows "\<exists>r s'. assign this other s = Some (r, s') \<and>
           (r = Inr () \<and> state_inv s' \<and> frame this s s' \<and>
              (\<exists>zs. owned s' this = Some zs \<and> map snd zs = map snd xs) \<or>
            r = Inl bad_alloc \<and> s' = s)"
proof -
  define temp where "temp = sp s"
  define s0 where "s0 = s\<lparr>sp := Suc (sp s)\<rparr>"
  have ent: "enter s = (temp, s0)" by (simp add: enter_def temp_def s0_def)
  have inv0: "state_inv s0" unfolding s0_def using inv by (rule enter_inv)
  have o0: "owned s0 c = owned s c" for c unfolding s0_def by (rule owned_cong) simp_all
  have dead: "queues s temp = None" unfolding temp_def using inv by (rule state_inv_top_dead) simp
  from own dead have tt: "temp \<noteq> this" using owned_live by fastforce
  from other dead have to: "temp \<noteq> other" using owned_live by fastforce
  have below: "temp < sp s0" by (simp add: temp_def s0_def)
  from other have other0: "owned s0 other = Some xs" by (simp add: o0)
  from Queue_copy_owned[OF inv0 below to other0]
  obtain r s1 where cp: "Queue_copy temp other s0 = Some (r, s1)" "state_inv s1" "frame temp s0 s1"
      "r = Inr () \<and> (\<exists>zs. owned s1 temp = Some zs \<and> map snd zs = map snd xs) \<or>
       r = Inl bad_alloc \<and> owned s1 temp = Some [] \<and> nodes s1 = nodes s0"
    by blast
  from cp(3) have sp1: "sp s1 = Suc (sp s)" and cap1: "capacity s1 = capacity s"
    and q1: "\<And>c. c \<noteq> temp \<Longrightarrow> queues s1 c = queues s c"
    by (simp_all add: frame_def s0_def)
  from cp(3) have o1: "\<And>c. c \<noteq> temp \<Longrightarrow> owned s1 c = owned s c"
    by (simp add: frame_def o0)
  from cp(4) show ?thesis
  proof
    assume bad: "r = Inl bad_alloc \<and> owned s1 temp = Some [] \<and> nodes s1 = nodes s0"
    with ne ent cp(1) have "assign this other s = Some (Inl bad_alloc, leave temp s1)"
      by (simp add: assign_def)
    moreover have "leave temp s1 = s"
      unfolding temp_def
    proof (rule leave_top_restores)
      show "nodes s1 = nodes s" using bad by (simp add: s0_def)
      show "queues s (sp s) = None" using dead by (simp add: temp_def)
      show "queues s1 c = queues s c" if "c \<noteq> sp s" for c using that q1 by (simp add: temp_def)
    qed (rule cap1 sp1)+
    ultimately show ?thesis by simp
  next
    assume "r = Inr () \<and> (\<exists>zs. owned s1 temp = Some zs \<and> map snd zs = map snd xs)"
    then obtain zs where ok: "r = Inr ()" "owned s1 temp = Some zs" "map snd zs = map snd xs"
      by blast
    from ok(2) obtain t where t: "queues s1 temp = Some t" by (auto simp: owned_iff)
    from own tt have own1: "owned s1 this = Some ys" by (simp add: o1)
    then obtain q where q: "queues s1 this = Some q" by (auto simp: owned_iff)
    define s2 where "s2 = s1\<lparr>queues := (queues s1)(temp \<mapsto> q, this \<mapsto> t)\<rparr>"
    note sw = swap_inv[OF cp(2) tt t q, folded s2_def]
    from sw(2) own1 have own2: "owned s2 temp = Some ys" by simp
    from Queue_dtor_owned[OF sw(1) own2] obtain s3 where s3: "Queue_dtor temp s2 = (Inr (), s3)"
        "frame temp s2 s3" "state_inv s3"
      by blast
    have run: "assign this other s = Some (Inr (), leave temp s3)"
      using ne ent cp(1) ok(1) t q s3(1)
      by (simp add: assign_def Queue_fields_eq s2_def[symmetric] exit_scope_def)
    have inv': "state_inv (leave temp s3)" using s3(3) by (rule leave_inv)
    have ol: "owned (leave temp s3) c = owned s3 c" if "c \<noteq> temp" for c
      using that by (intro owned_cong) (simp_all add: leave_def)
    from s3(2) have o3: "\<And>c. c \<noteq> temp \<Longrightarrow> owned s3 c = owned s2 c"
      and q3: "\<And>c. c \<noteq> temp \<Longrightarrow> queues s3 c = queues s2 c"
      and sp3: "sp s3 = sp s2" and cap3: "capacity s3 = capacity s2"
      by (simp_all add: frame_def)
    have own': "owned (leave temp s3) this = Some zs"
      using tt ol[of this] o3[of this] sw(3) ok(2) by simp
    have fr: "frame this s (leave temp s3)"
      unfolding frame_def
    proof (intro conjI allI impI)
      show "sp (leave temp s3) = sp s" using sp3 sp1 by (simp add: leave_def s2_def temp_def)
      show "capacity (leave temp s3) = capacity s" using cap3 cap1 by (simp add: leave_def s2_def)
    next
      fix c assume c: "c \<noteq> this"
      show "queues (leave temp s3) c = queues s c"
      proof (cases "c = temp")
        case True
        with dead show ?thesis by (simp add: leave_def)
      next
        case False
        with c q3[of c] sw(4)[of c] q1[of c] show ?thesis by (simp add: leave_def)
      qed
      show "owned (leave temp s3) c = owned s c"
      proof (cases "c = temp")
        case True
        with dead show ?thesis by (simp add: owned_def leave_def)
      next
        case False
        with c ol[of c] o3[of c] sw(4)[of c] o1[of c] show ?thesis by simp
      qed
    qed
    from run inv' fr own' ok(3) show ?thesis by blast
  qed
qed








lemma owned_enter: "owned (s\<lparr>sp := Suc (sp s)\<rparr>) c = owned s c"
  by (rule owned_eqI) simp_all





lemma state_inv_init: "state_inv (init_state c)"
  by (simp add: state_inv_def queue_inv_def separate_def footprint_def owned_def store_inv_def
      init_state_def)

lemma new_Queue_inv:
  assumes inv: "state_inv s"
  shows "fst (new_Queue s) = sp s" and "state_inv (snd (new_Queue s))"
    and "owned (snd (new_Queue s)) (sp s) = Some []"
    and "\<And>c. c \<noteq> sp s \<Longrightarrow> owned (snd (new_Queue s)) c = owned s c \<and>
                              queues (snd (new_Queue s)) c = queues s c"
proof -
  define s0 where "s0 = s\<lparr>sp := Suc (sp s)\<rparr>"
  define s1 where "s1 = s0\<lparr>queues := (queues s0)(sp s \<mapsto> \<lparr>m_front = None, m_rear = None, m_size = 0\<rparr>)\<rparr>"
  have nq: "new_Queue s = (sp s, s1)"
    by (simp add: new_Queue_def enter_def Queue_default_def s1_def s0_def)
  have inv0: "state_inv s0" unfolding s0_def using inv by (rule enter_inv)
  have below: "sp s < sp s0" by (simp add: s0_def)
  note i = init_member_inv[OF inv0 below, folded s1_def]
  show "fst (new_Queue s) = sp s" by (simp add: nq)
  from i(1) show "state_inv (snd (new_Queue s))" by (simp add: nq)
  from i(2) show "owned (snd (new_Queue s)) (sp s) = Some []" by (simp add: nq)
  show "owned (snd (new_Queue s)) c = owned s c \<and> queues (snd (new_Queue s)) c = queues s c"
    if "c \<noteq> sp s" for c
  proof
    from i(1) that have "owned s1 c = owned s0 c" by (simp add: frame_def)
    then show "owned (snd (new_Queue s)) c = owned s c" by (simp add: nq s0_def owned_enter)
    from that show "queues (snd (new_Queue s)) c = queues s c" by (simp add: nq s1_def s0_def)
  qed
qed

lemma pushBack_inv:
  assumes inv: "state_inv s"
  shows "state_inv (snd (pushBack this val s)) \<and> frame this s (snd (pushBack this val s)) \<and>
         (queues (snd (pushBack this val s)) this = None \<longleftrightarrow> queues s this = None)"
proof (cases "queues s this")
  case None
  then have "pushBack this val s = (Inl Undefined, s)" by (simp add: pushBack_def)
  with inv None show ?thesis by (simp add: frame_refl)
next
  case (Some q)
  with inv obtain xs where xs: "owned s this = Some xs"
    using state_inv_live_owned[of s this] by auto
  from inv xs show ?thesis
  proof (cases rule: pushBack_cases[where val = val])
    case full
    with inv Some show ?thesis by (simp add: frame_refl)
  next
    case (pushed a s')
    with Some show ?thesis using owned_live[of s' this] by auto
  qed
qed

lemma popFront_inv:
  assumes inv: "state_inv s"
  shows "state_inv (snd (popFront this s)) \<and> frame this s (snd (popFront this s)) \<and>
         (queues (snd (popFront this s)) this = None \<longleftrightarrow> queues s this = None)"
proof (cases "queues s this")
  case None
  then have "popFront this s = (Inl Undefined, s)" by (simp add: popFront_def)
  with inv None show ?thesis by (simp add: frame_refl)
next
  case (Some q)
  with inv obtain xs where xs: "owned s this = Some xs"
    using state_inv_live_owned[of s this] by auto
  show ?thesis
  proof (cases xs)
    case Nil
    with xs have "popFront this s = (Inl EmptyQueue, s)" by (simp add: popFront_empty)
    with inv Some show ?thesis by (simp add: frame_refl)
  next
    case (Cons y ys)
    with xs have "owned s this = Some (y # ys)" by simp
    from popFront_cons[OF inv this] obtain s' where "popFront this s = (Inr (), s')"
      "owned s' this = Some ys" "frame this s s'" "state_inv s'"
      by blast
    with Some show ?thesis using owned_live[of s' this] by auto
  qed
qed






lemma reachable_inv: "reachable s \<Longrightarrow> state_inv s"
proof (induction rule: reachable.induct)
  case (start c)
  show ?case by (rule state_inv_init)
next
  case (declare_default s)
  then show ?case by (simp add: new_Queue_inv(2))
next
  case (declare_copy s other r s')
  define this where "this = sp s"
  define s0 where "s0 = s\<lparr>sp := Suc (sp s)\<rparr>"
  have ent: "enter s = (this, s0)" by (simp add: enter_def this_def s0_def)
  have inv0: "state_inv s0" unfolding s0_def using declare_copy.IH by (rule enter_inv)
  have dead: "queues s this = None"
    unfolding this_def using declare_copy.IH by (rule state_inv_top_dead) simp
  with declare_copy.hyps(2) have ne: "this \<noteq> other" by auto
  have below: "this < sp s0" by (simp add: this_def s0_def)
  from declare_copy.hyps(2) declare_copy.IH obtain xs where "owned s other = Some xs"
    using state_inv_live_owned[of s other] by auto
  then have "owned s0 other = Some xs" by (simp add: s0_def owned_enter)
  from Queue_copy_owned[OF inv0 below ne this]
  obtain r1 s1 where a: "Queue_copy this other s0 = Some (r1, s1)" "state_inv s1"
    by blast
  from a(1) declare_copy.hyps(3) ent have "s1 = s'" by simp
  with a(2) show ?case using ent by (simp add: leave_inv)
next
  case (assignment s this other r s')
  show ?case
  proof (cases "this = other")
    case True
    with assignment.hyps(4) assignment.IH show ?thesis by (simp add: assign_def)
  next
    case False
    from assignment.hyps(2,3) assignment.IH obtain ys xs where
      "owned s this = Some ys" "owned s other = Some xs"
      using state_inv_live_owned[of s this] state_inv_live_owned[of s other] by auto
    from assign_owned[OF assignment.IH False this]
    obtain r1 s1 where a: "assign this other s = Some (r1, s1)" "state_inv s1 \<or> s1 = s"
      by blast
    from a(1) assignment.hyps(4) have "s1 = s'" by simp
    with a(2) assignment.IH show ?thesis by auto
  qed
next
  case (push s this val)
  from pushBack_inv[OF push.IH, of this val] show ?case by simp
next
  case (pop s this)
  from popFront_inv[OF pop.IH, of this] show ?case by simp
qed

section \<open>Claims\<close>

text \<open>
  Claim C4. On a queue whose \<^verbatim>\<open>size()\<close> is 0, both overloads of \<^verbatim>\<open>front()\<close> and
  \<^verbatim>\<open>popFront()\<close> raise \<^verbatim>\<open>EmptyQueue\<close>, and the state after \<^verbatim>\<open>popFront()\<close> is the state
  before it (\<^verbatim>\<open>front()\<close> has no state to change). On a queue whose \<^verbatim>\<open>size()\<close> is
  positive none of the three raises \<^verbatim>\<open>EmptyQueue\<close>.
\<close>

theorem empty_queue_misuse:
  "(Queue_size this s = Inr 0 \<longrightarrow>
      front this s = Inl EmptyQueue \<and> front_const this s = Inl EmptyQueue \<and>
      popFront this s = (Inl EmptyQueue, s)) \<and>
   (Queue_size this s = Inr n \<and> 0 < n \<longrightarrow>
      front this s \<noteq> Inl EmptyQueue \<and> front_const this s \<noteq> Inl EmptyQueue \<and>
      fst (popFront this s) \<noteq> Inl EmptyQueue)"
  by (auto simp: Queue_size_def front_def front_const_def popFront_def split: option.splits)

theorem empty_queue_misuse_witness:
  "front 0 (demo []) = Inl EmptyQueue \<and> front_const 0 (demo []) = Inl EmptyQueue \<and>
   popFront 0 (demo []) = (Inl EmptyQueue, demo []) \<and>
   front 0 (demo [7]) \<noteq> Inl EmptyQueue \<and> front_const 0 (demo [7]) \<noteq> Inl EmptyQueue \<and>
   fst (popFront 0 (demo [7])) \<noteq> Inl EmptyQueue"
proof -
  have "Queue_size 0 (demo []) = Inr 0" by code_simp
  moreover have "Queue_size 0 (demo [7]) = Inr 1 \<and> (0::int) < 1" by code_simp
  ultimately show ?thesis
    using empty_queue_misuse[of 0 "demo []"] empty_queue_misuse[of 0 "demo [7]" 1] by blast
qed

text \<open>
  Claim C8. An iterator that compares equal to \<^verbatim>\<open>end()\<close> raises \<^verbatim>\<open>InvalidOperation\<close> when
  it is dereferenced or advanced, in prefix or postfix form. An iterator that differs from
  \<^verbatim>\<open>end()\<close> never raises it, and at a live node the three operations return the node's
  data, the iterator moved to the next node, and the pair of the old and the moved iterator.
\<close>

theorem iterator_sentinel_misuse:
  "(\<not> neq it (Queue_end this) \<longrightarrow>
      deref it s = Inl InvalidOperation \<and> pre_incr it s = Inl InvalidOperation \<and>
      post_incr it s = Inl InvalidOperation) \<and>
   (neq it (Queue_end this) \<longrightarrow>
      deref it s \<noteq> Inl InvalidOperation \<and> pre_incr it s \<noteq> Inl InvalidOperation \<and>
      post_incr it s \<noteq> Inl InvalidOperation) \<and>
   (m_currentNode it = Some c \<and> nodes s c = Some n \<longrightarrow>
      deref it s = Inr (data n) \<and> pre_incr it s = Inr (it\<lparr>m_currentNode := nxt n\<rparr>) \<and>
      post_incr it s = Inr (it, it\<lparr>m_currentNode := nxt n\<rparr>))"
  by (auto simp: neq_def Queue_end_def deref_def pre_incr_def post_incr_def split: option.splits)

theorem iterator_sentinel_misuse_witness:
  "deref (Queue_end 0) (demo [7]) = Inl InvalidOperation \<and>
   pre_incr (Queue_end 0) (demo [7]) = Inl InvalidOperation \<and>
   post_incr (Queue_end 0) (demo [7]) = Inl InvalidOperation \<and>
   deref \<lparr>m_ptr = 0, m_currentNode = Some 0\<rparr> (demo [7]) = Inr 7 \<and>
   pre_incr \<lparr>m_ptr = 0, m_currentNode = Some 0\<rparr> (demo [7]) = Inr (Queue_end 0) \<and>
   post_incr \<lparr>m_ptr = 0, m_currentNode = Some 0\<rparr> (demo [7]) =
     Inr (\<lparr>m_ptr = 0, m_currentNode = Some 0\<rparr>, Queue_end 0)"
proof -
  have a: "\<not> neq (Queue_end 0) (Queue_end 0)" by (simp add: neq_def)
  have b: "m_currentNode \<lparr>m_ptr = 0, m_currentNode = Some 0\<rparr> = Some 0 \<and>
           nodes (demo [7]) 0 = Some \<lparr>data = 7, nxt = None\<rparr>"
    by code_simp
  show ?thesis
    using a b iterator_sentinel_misuse[of "Queue_end 0" 0 "demo [7]"]
      iterator_sentinel_misuse[of "\<lparr>m_ptr = 0, m_currentNode = Some 0\<rparr>" 0 "demo [7]" 0
        "\<lparr>data = 7, nxt = None\<rparr>"]
    by (simp add: Queue_end_def)
qed

text \<open>
  Claim C9. The source defines \<^verbatim>\<open>operator!=\<close> only. Two iterators compare equal, that is
  \<^verbatim>\<open>operator!=\<close> is false, exactly when their current nodes are the same pointer (the same
  node, or both \<^verbatim>\<open>nullptr\<close>), and \<^verbatim>\<open>operator!=\<close> is true exactly when they are not.
\<close>

theorem iterator_comparison:
  "(\<not> neq it other) = (m_currentNode it = m_currentNode other) \<and>
   neq it other = (\<not> (m_currentNode it = m_currentNode other))"
  by (simp add: neq_def)

text \<open>
  Claim C10. \<^verbatim>\<open>operator!=\<close> does not look at the queue an iterator came from: the
  \<^verbatim>\<open>end()\<close> iterators of any two queues compare equal, and replacing the queues of two
  iterators does not change the comparison.
\<close>

theorem end_iterators_of_any_queues_equal:
  "neq (Queue_end q1) (Queue_end q2) = False \<and>
   neq (it\<lparr>m_ptr := q1\<rparr>) (other\<lparr>m_ptr := q2\<rparr>) = neq it other"
  by (simp add: neq_def Queue_end_def)

text \<open>
  The count of a queue never exceeds the number of nodes of the store: in a store of fewer
  than \<open>2^31\<close> nodes \<^verbatim>\<open>m_size\<close> stays in the range of \<^verbatim>\<open>int\<close>.
\<close>

lemma m_size_in_store:
  assumes "state_inv s" "queues s this = Some q"
  shows "0 \<le> m_size q \<and> m_size q \<le> int (capacity s)"
proof -
  from assms obtain xs where xs: "owned s this = Some xs"
    using state_inv_live_owned[of s this] by auto
  with assms(2) have sz: "m_size q = int (length xs)" by (auto simp: owned_iff)
  from xs have d: "distinct (map fst xs)" by (rule owned_distinct)
  from assms(1) have "store_inv s" by (simp add: state_inv_def)
  have "a < capacity s" if "a \<in> fst ` set xs" for a
  proof -
    from xs that have "nodes s a \<noteq> None" by (rule owned_allocated)
    with \<open>store_inv s\<close> show ?thesis by (simp add: store_inv_def)
  qed
  then have "set (map fst xs) \<subseteq> {..<capacity s}" by auto
  then have "card (set (map fst xs)) \<le> card {..<capacity s}" by (intro card_mono) simp_all
  moreover from d have "card (set (map fst xs)) = length xs"
    using distinct_card[of "map fst xs"] by simp
  ultimately have "length xs \<le> capacity s" by simp
  with sz show ?thesis by simp
qed

lemma m_size_in_int_range:
  assumes "reachable s" "queues s this = Some q" "capacity s < 2 ^ 31"
  shows "0 \<le> m_size q \<and> m_size q < 2 ^ 31"
proof -
  from assms(1) have "state_inv s" by (rule reachable_inv)
  from m_size_in_store[OF this assms(2)] assms(3) show ?thesis by simp
qed






lemma push_all_inv:
  assumes "state_inv s"
  shows "state_inv (snd (push_all this vs s)) \<and>
         (queues (snd (push_all this vs s)) this = None \<longleftrightarrow> queues s this = None)"
  using assms
proof (induction vs arbitrary: s)
  case Nil
  then show ?case by simp
next
  case (Cons v vs)
  note p = pushBack_inv[OF Cons.prems, of this v]
  show ?case
  proof (cases "pushBack this v s")
    case (Pair r s1)
    with p have s1: "state_inv s1" "queues s1 this = None \<longleftrightarrow> queues s this = None" by simp_all
    show ?thesis
    proof (cases r)
      case (Inl e)
      with Pair s1 show ?thesis by simp
    next
      case (Inr u)
      with Pair Cons.IH[OF s1(1)] s1(2) show ?thesis by simp
    qed
  qed
qed






lemma demo2_inv: "state_inv demo2"
  unfolding demo2_def
  by (intro push_all_inv[THEN conjunct1] new_Queue_inv(2) state_inv_init)

text \<open>
  Claim C5. Assignment always returns, and whenever it does not succeed the exception is
  \<^verbatim>\<open>std::bad_alloc\<close> and the whole program state, so also the size and the element sequence
  of the target, is the state before the call. In particular, when the copy constructor of
  the local \<^verbatim>\<open>temp\<close> throws, at whatever node of the copy, the assignment throws the same
  exception, which is \<^verbatim>\<open>std::bad_alloc\<close>, and the state is the one before the call: the
  fields are swapped only after the copy is complete.
\<close>

theorem assignment_atomic:
  assumes "state_inv s" and "queues s this \<noteq> None" and "queues s other \<noteq> None"
  shows "(\<exists>r s'. assign this other s = Some (r, s') \<and>
            (r = Inr () \<or>
             r = Inl bad_alloc \<and> s' = s \<and>
             Queue_size this s' = Queue_size this s \<and> elements this s' = elements this s)) \<and>
         (\<forall>e s1. this \<noteq> other \<and>
            Queue_copy (fst (enter s)) other (snd (enter s)) = Some (Inl e, s1) \<longrightarrow>
            e = bad_alloc \<and> assign this other s = Some (Inl bad_alloc, s))"
proof (cases "this = other")
  case True
  then show ?thesis by (simp add: assign_def)
next
  case False
  from assms obtain ys xs where "owned s this = Some ys" "owned s other = Some xs"
    using state_inv_live_owned[of s this] state_inv_live_owned[of s other] by auto
  from assign_owned[OF assms(1) False this]
  obtain r s' where a: "assign this other s = Some (r, s')" "r = Inr () \<or> r = Inl bad_alloc \<and> s' = s"
    by blast
  have "e = bad_alloc \<and> assign this other s = Some (Inl bad_alloc, s)"
    if "Queue_copy (fst (enter s)) other (snd (enter s)) = Some (Inl e, s1)" for e s1
  proof -
    obtain temp s0 where ent: "enter s = (temp, s0)" by (cases "enter s")
    with that False have "assign this other s = Some (Inl e, leave (fst (enter s)) s1)"
      by (simp add: assign_def)
    with a show ?thesis by auto
  qed
  with a False show ?thesis by auto
qed

theorem assignment_atomic_witness:
  "assign 0 1 demo2 = Some (Inl bad_alloc, demo2) \<and> elements 0 demo2 = Some (Inr [1]) \<and>
   map_option fst (Queue_copy (fst (enter demo2)) 1 (snd (enter demo2))) = Some (Inl bad_alloc)"
proof -
  have live: "queues demo2 0 \<noteq> None" "queues demo2 1 \<noteq> None" by code_simp+
  have fails: "map_option fst (assign 0 1 demo2) = Some (Inl bad_alloc)" by code_simp
  have el: "elements 0 demo2 = Some (Inr [1])" by code_simp
  have cp: "map_option fst (Queue_copy (fst (enter demo2)) 1 (snd (enter demo2))) = Some (Inl bad_alloc)"
    by code_simp
  from assignment_atomic[OF demo2_inv live] fails el cp show ?thesis by auto
qed











end
